theory Spec2Isabelle
  imports Main "HOL-Library.Word"
begin

section \<open>The event flag (class Flag of common.hpp)\<close>

text \<open>
  The class holds two booleans behind one mutex and one condition variable. Every member
  function takes the mutex for its whole body, so each call is one atomic transformation
  of the pair of booleans; the mutex and the condition variable themselves carry no data.
\<close>

text \<open>
  A data member \<^verbatim>\<open>x_\<close> of the source is the field \<open>x_m\<close> here (a name cannot end in
  an underscore).
\<close>

record Flag =
  flag_m :: bool
  disarmed_m :: bool

text \<open>The constructor \<^verbatim>\<open>Flag(bool state = false)\<close>: armed, with the given state.\<close>

definition Flag_new :: "bool \<Rightarrow> Flag" where
  "Flag_new state = \<lparr>flag_m = state, disarmed_m = False\<rparr>"

definition is_set :: "Flag \<Rightarrow> bool" where
  "is_set f = flag_m f"

definition set_flag :: "Flag \<Rightarrow> Flag" where
  "set_flag f = f\<lparr>flag_m := True\<rparr>"

definition reset :: "Flag \<Rightarrow> Flag" where
  "reset f = f\<lparr>flag_m := False\<rparr>"

definition disarm :: "Flag \<Rightarrow> Flag" where
  "disarm f = f\<lparr>disarmed_m := True\<rparr>"

text \<open>
  \<^verbatim>\<open>cv_.wait(lock, pred)\<close> is \<^verbatim>\<open>while (!pred()) cv_.wait(lock);\<close>: the caller gets past
  it only in a state in which the predicate holds, and it leaves the state as it is. The
  result \<open>None\<close> says that the caller stays blocked in this state. Every member
  function that changes the state ends with \<^verbatim>\<open>cv_.notify_all()\<close>, so a blocked caller
  tries its predicate again in each state such a call leaves behind.
\<close>

definition cv_wait :: "(Flag \<Rightarrow> bool) \<Rightarrow> Flag \<Rightarrow> Flag option" where
  "cv_wait pred f = (if pred f then Some f else None)"

text \<open>The two wake predicates, the lambdas handed to the condition variable.\<close>

definition wait_pred :: "Flag \<Rightarrow> bool" where
  "wait_pred f = flag_m f"

definition wait_reset_pred :: "Flag \<Rightarrow> bool" where
  "wait_reset_pred f = (flag_m f \<or> disarmed_m f)"

definition wait :: "Flag \<Rightarrow> Flag option" where
  "wait f = cv_wait wait_pred f"

definition wait_reset :: "Flag \<Rightarrow> Flag option" where
  "wait_reset f =
     (case cv_wait wait_reset_pred f of
        None \<Rightarrow> None
      | Some g \<Rightarrow> Some (if \<not> disarmed_m g then g\<lparr>flag_m := False\<rparr> else g))"

text \<open>
  What other threads may do to a flag while a caller is blocked on it. A blocking call
  that cannot get past its predicate leaves the state alone.
\<close>

datatype Flag_call = Set | Reset | Disarm | Wait | WaitReset

fun call :: "Flag_call \<Rightarrow> Flag \<Rightarrow> Flag" where
  "call Set f = set_flag f"
| "call Reset f = reset f"
| "call Disarm f = disarm f"
| "call Wait f = (case wait f of None \<Rightarrow> f | Some g \<Rightarrow> g)"
| "call WaitReset f = (case wait_reset f of None \<Rightarrow> f | Some g \<Rightarrow> g)"

definition calls :: "Flag_call list \<Rightarrow> Flag \<Rightarrow> Flag" where
  "calls cs f = foldl (\<lambda>g c. call c g) f cs"

section \<open>The lock-free running extremum (atomic_maximum, atomic_minimum)\<close>

text \<open>
  Both functions load the shared value once and then loop: while the value last seen
  is worse than the candidate, try to swap the candidate in with
  \<^verbatim>\<open>compare_exchange_weak\<close>. The atomic operations use the default, sequentially
  consistent order, so an execution of several threads is an interleaving of their atomic
  steps. A thread is at one of three places.
\<close>

datatype 'a loop_state =
    Entry             \<comment> \<open>before \<^verbatim>\<open>prev_val = std::atomic_load(&shared)\<close>\<close>
  | Loop 'a           \<comment> \<open>at the loop condition, holding \<open>prev_val\<close>\<close>
  | Returned

text \<open>
  \<^verbatim>\<open>obj.compare_exchange_weak(expected, desired)\<close>: when the object holds the expected
  value it stores the desired one and yields true, unless it fails spuriously; on every
  failure the expected value is overwritten with the value the object holds. The result is
  (success, object, expected).
\<close>

definition compare_exchange_weak :: "bool \<Rightarrow> 'a \<Rightarrow> 'a \<Rightarrow> 'a \<Rightarrow> bool \<times> 'a \<times> 'a" where
  "compare_exchange_weak spurious obj expected desired =
     (if obj = expected \<and> \<not> spurious then (True, desired, expected) else (False, obj, obj))"

text \<open>
  One atomic step of a thread inside \<^verbatim>\<open>atomic_maximum(max_val, new_val)\<close>: the load, or
  one evaluation of the loop condition (the comparison reads locals only, the exchange
  is the atomic access). The flag says whether an exchange at this step fails spuriously.
  The result is the shared value and the thread's place after the step.
\<close>

fun atomic_maximum_step :: "bool \<Rightarrow> 'a::linorder \<Rightarrow> 'a \<Rightarrow> 'a loop_state \<Rightarrow> 'a \<times> 'a loop_state" where
  "atomic_maximum_step spurious max_val new_val Entry = (max_val, Loop max_val)"
| "atomic_maximum_step spurious max_val new_val (Loop prev_val) =
     (if prev_val < new_val then
        (case compare_exchange_weak spurious max_val prev_val new_val of
           (ok, max_val', prev_val') \<Rightarrow>
             if \<not> ok then (max_val', Loop prev_val') else (max_val', Returned))
      else (max_val, Returned))"
| "atomic_maximum_step spurious max_val new_val Returned = (max_val, Returned)"

fun atomic_minimum_step :: "bool \<Rightarrow> 'a::linorder \<Rightarrow> 'a \<Rightarrow> 'a loop_state \<Rightarrow> 'a \<times> 'a loop_state" where
  "atomic_minimum_step spurious min_val new_val Entry = (min_val, Loop min_val)"
| "atomic_minimum_step spurious min_val new_val (Loop prev_val) =
     (if prev_val > new_val then
        (case compare_exchange_weak spurious min_val prev_val new_val of
           (ok, min_val', prev_val') \<Rightarrow>
             if \<not> ok then (min_val', Loop prev_val') else (min_val', Returned))
      else (min_val, Returned))"
| "atomic_minimum_step spurious min_val new_val Returned = (min_val, Returned)"

text \<open>
  A call that runs with no other thread touching the shared value. The list gives, step
  by step, whether an exchange at that step fails spuriously; a call that has not
  returned when the list ends yields \<open>None\<close>. A call that has returned yields the
  shared value it leaves behind.
\<close>

fun steps_alone ::
  "(bool \<Rightarrow> 'a \<Rightarrow> 'a \<Rightarrow> 'a loop_state \<Rightarrow> 'a \<times> 'a loop_state) \<Rightarrow> bool list \<Rightarrow> 'a \<Rightarrow> 'a \<Rightarrow> 'a loop_state \<Rightarrow> 'a option" where
  "steps_alone step sched shared new_val Returned = Some shared"
| "steps_alone step [] shared new_val at = None"
| "steps_alone step (b # sched) shared new_val at =
     (case step b shared new_val at of (shared', at') \<Rightarrow> steps_alone step sched shared' new_val at')"

definition atomic_maximum :: "bool list \<Rightarrow> 'a::linorder \<Rightarrow> 'a \<Rightarrow> 'a option" where
  "atomic_maximum sched max_val new_val = steps_alone atomic_maximum_step sched max_val new_val Entry"

definition atomic_minimum :: "bool list \<Rightarrow> 'a::linorder \<Rightarrow> 'a \<Rightarrow> 'a option" where
  "atomic_minimum sched min_val new_val = steps_alone atomic_minimum_step sched min_val new_val Entry"

text \<open>
  Several threads on one shared value: each thread has its place and its candidate. A
  schedule names, step by step, the thread that moves and whether an exchange at that
  step fails spuriously; a step of a thread that does not exist changes nothing.
\<close>

type_synonym 'a threads = "('a loop_state \<times> 'a) list"

definition interleave_step ::
  "(bool \<Rightarrow> 'a \<Rightarrow> 'a \<Rightarrow> 'a loop_state \<Rightarrow> 'a \<times> 'a loop_state) \<Rightarrow> 'a \<times> 'a threads \<Rightarrow> nat \<times> bool \<Rightarrow> 'a \<times> 'a threads" where
  "interleave_step step cfg e =
     (case cfg of (shared, ts) \<Rightarrow>
        case e of (i, b) \<Rightarrow>
          if i < length ts then
            (case step b shared (snd (ts ! i)) (fst (ts ! i)) of
               (shared', at') \<Rightarrow> (shared', ts[i := (at', snd (ts ! i))]))
          else (shared, ts))"

definition interleave ::
  "(bool \<Rightarrow> 'a \<Rightarrow> 'a \<Rightarrow> 'a loop_state \<Rightarrow> 'a \<times> 'a loop_state) \<Rightarrow> (nat \<times> bool) list \<Rightarrow> 'a \<times> 'a threads \<Rightarrow> 'a \<times> 'a threads" where
  "interleave step sched cfg = foldl (interleave_step step) cfg sched"

definition proposals :: "'a list \<Rightarrow> 'a threads" where
  "proposals cs = map (\<lambda>c. (Entry, c)) cs"

definition all_returned :: "'a threads \<Rightarrow> bool" where
  "all_returned ts = list_all (\<lambda>t. fst t = Returned) ts"

text \<open>
  The schedule in which the \<open>n\<close> threads run one after the other, each for two steps
  without a spurious failure.
\<close>

definition one_by_one :: "nat \<Rightarrow> (nat \<times> bool) list" where
  "one_by_one n = concat (map (\<lambda>i. [(i, False), (i, False)]) [0..<n])"

text \<open>
  The two loops differ in the comparison only. For the proofs both are instances of one
  step function over the relation \<open>worse prev_val new_val\<close> of the loop condition.
\<close>

fun cas_step :: "('a \<Rightarrow> 'a \<Rightarrow> bool) \<Rightarrow> bool \<Rightarrow> 'a \<Rightarrow> 'a \<Rightarrow> 'a loop_state \<Rightarrow> 'a \<times> 'a loop_state" where
  "cas_step worse b s c Entry = (s, Loop s)"
| "cas_step worse b s c (Loop p) =
     (if worse p c then (if s = p \<and> \<not> b then (c, Returned) else (s, Loop s))
      else (s, Returned))"
| "cas_step worse b s c Returned = (s, Returned)"

text \<open>
  The invariant of an interleaved execution that started with the shared value \<open>s0\<close>,
  over the order \<open>le x y\<close>, "x is at least as good as y": the shared value is at least
  as good as the initial one, it is the initial value or one of the candidates, it is at
  least as good as every value a thread last saw, and at least as good as the candidate
  of every thread that has returned.
\<close>

definition cas_inv :: "('a \<Rightarrow> 'a \<Rightarrow> bool) \<Rightarrow> 'a \<Rightarrow> 'a \<times> 'a threads \<Rightarrow> bool" where
  "cas_inv le s0 cfg =
     (le (fst cfg) s0 \<and> fst cfg \<in> insert s0 (set (map snd (snd cfg)))
      \<and> (\<forall>t \<in> set (snd cfg).
            (\<forall>p. fst t = Loop p \<longrightarrow> le (fst cfg) p) \<and> (fst t = Returned \<longrightarrow> le (fst cfg) (snd t))))"

section \<open>The process-wide context (class Caffe of common.hpp)\<close>

datatype Brew = CPU | GPU

text \<open>
  The static data members the functions below read and write. \<open>size_t\<close> is the
  64-bit unsigned integer, whose order is the unsigned one. The field
  \<open>init_calls\<close> is not a member of the class: it counts the calls of
  \<^verbatim>\<open>Caffe::init()\<close>.
\<close>

record Caffe =
  root_device_m :: int
  mode_m :: Brew
  gpus_m :: "int list"
  epoch_count_m :: "64 word"
  init_calls :: nat

text \<open>
  Modelled from the spec: \<^verbatim>\<open>Caffe::init()\<close> is declared in common.hpp ("when Brew mode
  changes") and defined in a file that is not part of the sources. The spec calls it the
  reinitialization and observes it through a reinitialization counter; that counter is
  all the model keeps of it.
\<close>

definition init :: "Caffe \<Rightarrow> Caffe" where
  "init c = c\<lparr>init_calls := Suc (init_calls c)\<rparr>"

text \<open>
  Modelled from the spec: the initializer of the static \<^verbatim>\<open>epoch_count_\<close> is in a file
  that is not part of the sources. By the spec the counter starts at the "unset"
  sentinel, which the getter below compares with \<^verbatim>\<open>(size_t)-1L\<close>.
\<close>

definition epoch_count_unset :: "64 word" where
  "epoch_count_unset = - 1"

definition report_epoch_count :: "Caffe \<Rightarrow> bool list \<Rightarrow> 64 word \<Rightarrow> Caffe option" where
  "report_epoch_count c sched rec =
     map_option (\<lambda>v. c\<lparr>epoch_count_m := v\<rparr>) (atomic_minimum sched (epoch_count_m c) rec)"

definition epoch_count :: "Caffe \<Rightarrow> 64 word" where
  "epoch_count c =
     (let count = epoch_count_m c in
      let count = (if count = - 1 then 0 else count) in
      count)"

text \<open>A sequence of reports, each with the schedule of its exchange loop.\<close>

fun report_all :: "Caffe \<Rightarrow> (bool list \<times> 64 word) list \<Rightarrow> Caffe option" where
  "report_all c [] = Some c"
| "report_all c (r # rs) =
     (case report_epoch_count c (fst r) (snd r) of
        None \<Rightarrow> None
      | Some c' \<Rightarrow> report_all c' rs)"

definition mode :: "Caffe \<Rightarrow> Brew" where
  "mode c = mode_m c"

definition set_mode :: "Caffe \<Rightarrow> Brew \<Rightarrow> Caffe" where
  "set_mode c m = (if mode_m c = m then c else init (c\<lparr>mode_m := m\<rparr>))"

definition root_device :: "Caffe \<Rightarrow> int" where
  "root_device c = root_device_m c"

definition set_gpus :: "Caffe \<Rightarrow> int list \<Rightarrow> Caffe" where
  "set_gpus c gs =
     (let c = c\<lparr>gpus_m := gs\<rparr> in
      if gpus_m c = [] then c\<lparr>gpus_m := gpus_m c @ [root_device_m c]\<rparr> else c)"

definition gpus :: "Caffe \<Rightarrow> int list" where
  "gpus c = gpus_m c"

section \<open>The guarded map (class ThreadSafeMap of common.hpp)\<close>

text \<open>
  The class wraps a container and a mutex; every member function holds the mutex for its
  whole body, so each call is one atomic transformation of the container. The container
  type \<open>M\<close> is the template parameter of the class, and the class puts no constraint
  on it. The state of a container is the list of its entries in iteration order; an
  iterator is a position in that list, and \<^verbatim>\<open>end()\<close> is the position behind the last
  entry. Reading through \<^verbatim>\<open>begin()\<close>, \<^verbatim>\<open>end()\<close>, \<^verbatim>\<open>find\<close>, an iterator and
  \<^verbatim>\<open>erase\<close> is the same for every container with unique keys. Where a new entry
  goes is not: \<^verbatim>\<open>std::map\<close> with its default order iterates by ascending key,
  \<^verbatim>\<open>std::map\<close> with \<^verbatim>\<open>std::greater\<close> by descending key, and
  \<^verbatim>\<open>std::unordered_map\<close>, which the header includes, in no order of the keys.
\<close>

type_synonym ('k, 'v) M = "('k \<times> 'v) list"

definition M_begin :: "('k, 'v) M \<Rightarrow> nat" where
  "M_begin m = 0"

definition M_end :: "('k, 'v) M \<Rightarrow> nat" where
  "M_end m = length m"

fun M_find :: "('k, 'v) M \<Rightarrow> 'k \<Rightarrow> nat" where
  "M_find [] key = 0"
| "M_find (e # m) key = (if fst e = key then 0 else Suc (M_find m key))"

text \<open>
  \<^verbatim>\<open>emplace\<close> of \<^verbatim>\<open>std::map\<close> with its default order: the new entry goes in front of
  the first entry with a greater key; nothing is inserted when an entry with the key
  exists.
\<close>

fun M_emplace :: "('k::linorder, 'v) M \<Rightarrow> 'k \<Rightarrow> 'v \<Rightarrow> ('k, 'v) M" where
  "M_emplace [] key v = [(key, v)]"
| "M_emplace (e # m) key v =
     (if key < fst e then (key, v) # e # m
      else if fst e < key then e # M_emplace m key v
      else e # m)"

text \<open>
  Dereferencing, assigning through or erasing an iterator that points at no entry is
  undefined behaviour; the model makes it a fault, so that a call that returns normally
  is seen not to run into it.
\<close>

datatype fault = Past_the_end

definition M_deref :: "('k, 'v) M \<Rightarrow> nat \<Rightarrow> fault + 'k \<times> 'v" where
  "M_deref m it = (if it < length m then Inr (m ! it) else Inl Past_the_end)"

text \<open>\<^verbatim>\<open>it->second = value\<close>\<close>

definition M_assign :: "('k, 'v) M \<Rightarrow> nat \<Rightarrow> 'v \<Rightarrow> fault + ('k, 'v) M" where
  "M_assign m it v = (if it < length m then Inr (m[it := (fst (m ! it), v)]) else Inl Past_the_end)"

text \<open>\<^verbatim>\<open>erase(it)\<close>\<close>

definition M_erase :: "('k, 'v) M \<Rightarrow> nat \<Rightarrow> fault + ('k, 'v) M" where
  "M_erase m it = (if it < length m then Inr (take it m @ drop (Suc it) m) else Inl Past_the_end)"

record ('k, 'v) ThreadSafeMap =
  map_m :: "('k, 'v) M"

text \<open>The constructor: a fresh, empty container.\<close>

definition ThreadSafeMap_new :: "('k, 'v) ThreadSafeMap" where
  "ThreadSafeMap_new = \<lparr>map_m = []\<rparr>"

definition size_map :: "('k, 'v) ThreadSafeMap \<Rightarrow> nat" where
  "size_map s = length (map_m s)"

definition clear :: "('k, 'v) ThreadSafeMap \<Rightarrow> ('k, 'v) ThreadSafeMap" where
  "clear s = s\<lparr>map_m := []\<rparr>"

text \<open>
  \<^verbatim>\<open>find(key)\<close>, read by its caller: nothing when the iterator is \<^verbatim>\<open>end()\<close>, else the
  value of the entry it points at.
\<close>

definition lookup :: "('k, 'v) ThreadSafeMap \<Rightarrow> 'k \<Rightarrow> 'v option" where
  "lookup s key =
     (let it = M_find (map_m s) key in
      if it = M_end (map_m s) then None else Some (snd (map_m s ! it)))"

definition insert_max ::
  "('k::linorder, 'v::linorder) ThreadSafeMap \<Rightarrow> 'k \<Rightarrow> 'v \<Rightarrow> fault + ('k, 'v) ThreadSafeMap" where
  "insert_max s key v =
     (let it = M_find (map_m s) key in
      if it = M_end (map_m s) then Inr (s\<lparr>map_m := M_emplace (map_m s) key v\<rparr>)
      else
        (case M_deref (map_m s) it of
           Inl f \<Rightarrow> Inl f
         | Inr e \<Rightarrow>
             if v > snd e then
               (case M_assign (map_m s) it v of
                  Inl f \<Rightarrow> Inl f
                | Inr m' \<Rightarrow> Inr (s\<lparr>map_m := m'\<rparr>))
             else Inr s))"

text \<open>
  \<^verbatim>\<open>remove_top(key, value)\<close> writes through its two reference parameters. The model
  takes what the caller's two variables hold before the call and returns the returned
  boolean, what the two variables hold after the call, and the map after the call.
\<close>

definition remove_top ::
  "('k, 'v) ThreadSafeMap \<Rightarrow> 'k \<Rightarrow> 'v \<Rightarrow> fault + bool \<times> 'k \<times> 'v \<times> ('k, 'v) ThreadSafeMap" where
  "remove_top s key v =
     (let it = M_begin (map_m s) in
      if it = M_end (map_m s) then Inr (False, key, v, s)
      else
        (case M_deref (map_m s) it of
           Inl f \<Rightarrow> Inl f
         | Inr e \<Rightarrow>
             (case M_erase (map_m s) it of
                Inl f \<Rightarrow> Inl f
              | Inr m' \<Rightarrow> Inr (True, fst e, snd e, s\<lparr>map_m := m'\<rparr>))))"

text \<open>A sequence of \<^verbatim>\<open>insert_max\<close> calls, each with its key and the value it offers.\<close>

fun insert_max_all ::
  "('k::linorder, 'v::linorder) ThreadSafeMap \<Rightarrow> ('k \<times> 'v) list \<Rightarrow> fault + ('k, 'v) ThreadSafeMap" where
  "insert_max_all s [] = Inr s"
| "insert_max_all s (kv # kvs) =
     (case insert_max s (fst kv) (snd kv) of
        Inl f \<Rightarrow> Inl f
      | Inr s' \<Rightarrow> insert_max_all s' kvs)"

text \<open>The values a sequence of calls offers for one key, in the order of the calls.\<close>

definition offered :: "('k \<times> 'v) list \<Rightarrow> 'k \<Rightarrow> 'v list" where
  "offered kvs k = map snd (filter (\<lambda>kv. fst kv = k) kvs)"

text \<open>
  The caller's loop \<^verbatim>\<open>while (m.remove_top(key, value)) out.push_back({key, value});\<close>:
  the entries in the order in which they come out, and the map the loop leaves behind.
\<close>

function drain ::
  "('k, 'v) ThreadSafeMap \<Rightarrow> 'k \<Rightarrow> 'v \<Rightarrow> fault + ('k \<times> 'v) list \<times> ('k, 'v) ThreadSafeMap" where
  "drain s key v =
     (case remove_top s key v of
        Inl f \<Rightarrow> Inl f
      | Inr (ok, key', v', s') \<Rightarrow>
          if ok then
            (case drain s' key' v' of
               Inl f \<Rightarrow> Inl f
             | Inr (out, s'') \<Rightarrow> Inr ((key', v') # out, s''))
          else Inr ([], s'))"
  by pat_completeness auto
termination
  by (relation "measure (\<lambda>(s, key, v). length (map_m s))")
    (auto simp: remove_top_def M_begin_def M_end_def M_erase_def M_deref_def split: if_splits)

declare drain.simps [simp del]

text \<open>Calling \<^verbatim>\<open>remove_top\<close> again and again, each time with the variables as they are.\<close>

fun remove_top_times ::
  "nat \<Rightarrow> ('k, 'v) ThreadSafeMap \<Rightarrow> 'k \<Rightarrow> 'v \<Rightarrow> fault + bool list \<times> 'k \<times> 'v \<times> ('k, 'v) ThreadSafeMap" where
  "remove_top_times 0 s key v = Inr ([], key, v, s)"
| "remove_top_times (Suc n) s key v =
     (case remove_top s key v of
        Inl f \<Rightarrow> Inl f
      | Inr (ok, key', v', s') \<Rightarrow>
          (case remove_top_times n s' key' v' of
             Inl f \<Rightarrow> Inl f
           | Inr (oks, r) \<Rightarrow> Inr (ok # oks, r)))"

text \<open>
  The invariant of \<^verbatim>\<open>std::map\<close> with its default order: strictly ascending keys in
  iteration order.
\<close>

definition ascending :: "('k::linorder, 'v) M \<Rightarrow> bool" where
  "ascending m = sorted_wrt (<) (map fst m)"

section \<open>Properties of the flag\<close>

lemma disarmed_call: "disarmed_m f \<Longrightarrow> disarmed_m (call c f)"
  by (cases c)
    (simp_all add: set_flag_def reset_def disarm_def wait_def wait_reset_def cv_wait_def
      wait_pred_def wait_reset_pred_def)

lemma disarmed_calls: "disarmed_m f \<Longrightarrow> disarmed_m (calls cs f)"
  unfolding calls_def
  by (induction cs arbitrary: f) (simp_all add: disarmed_call)

lemmas flag_defs = Flag_new_def is_set_def set_flag_def reset_def disarm_def wait_def
  wait_reset_def cv_wait_def wait_pred_def wait_reset_pred_def

text \<open>
  Claim C2, as it stands, fails for \<^verbatim>\<open>wait()\<close>: its predicate reads \<^verbatim>\<open>flag_\<close> only, so on
  a fresh flag that is disarmed and never set the predicate is still false and the caller
  stays blocked.
\<close>

theorem wait_not_released_by_disarm:
  "\<not> wait_pred (disarm (Flag_new False)) \<and> wait (disarm (Flag_new False)) = None"
  by (simp add: flag_defs)

text \<open>
  Claim C2, amended: \<^verbatim>\<open>disarm()\<close> releases a caller blocked in \<^verbatim>\<open>wait_reset()\<close> even if
  \<^verbatim>\<open>set()\<close> is never called. After \<^verbatim>\<open>disarm()\<close> the wake predicate of \<^verbatim>\<open>wait_reset()\<close>
  holds, the call returns and leaves the flag as it is, and this stays so whatever calls
  follow on the flag, so \<^verbatim>\<open>wait_reset()\<close> cannot block once \<^verbatim>\<open>disarm()\<close> has run. The
  wake predicate of \<^verbatim>\<open>wait()\<close> is untouched by \<^verbatim>\<open>disarm()\<close>: after it, \<^verbatim>\<open>wait()\<close> is
  blocked exactly when the flag is not set. A second \<^verbatim>\<open>disarm()\<close> changes nothing.
\<close>

theorem disarm_releases_wait_reset:
  "wait_reset_pred (disarm f)
   \<and> wait_reset (disarm f) = Some (disarm f)
   \<and> (\<forall>cs. wait_reset_pred (calls cs (disarm f)) \<and> wait_reset (calls cs (disarm f)) \<noteq> None)
   \<and> wait_pred (disarm f) = flag_m f
   \<and> (wait (disarm f) = None) = (\<not> flag_m f)
   \<and> disarm (disarm f) = disarm f"
proof -
  have d: "disarmed_m (disarm f)" by (simp add: disarm_def)
  have "\<forall>cs. wait_reset_pred (calls cs (disarm f)) \<and> wait_reset (calls cs (disarm f)) \<noteq> None"
    using disarmed_calls [OF d] by (simp add: wait_reset_def cv_wait_def wait_reset_pred_def)
  then show ?thesis
    by (simp add: flag_defs)
qed

theorem disarm_releases_wait_reset_witness:
  "wait_reset (disarm (Flag_new False)) = Some \<lparr>flag_m = False, disarmed_m = True\<rparr>
   \<and> wait_reset (calls [Reset, Wait, WaitReset] (disarm (Flag_new False))) \<noteq> None
   \<and> wait (disarm (Flag_new True)) \<noteq> None
   \<and> disarm (disarm (Flag_new False)) = disarm (Flag_new False)"
  using disarm_releases_wait_reset [of "Flag_new False"] disarm_releases_wait_reset [of "Flag_new True"]
  by (simp add: Flag_new_def disarm_def)

text \<open>
  Claim C3, as it stands, fails on a flag that is set and disarmed: \<^verbatim>\<open>wait_reset()\<close> wakes
  up and returns, and the flag is still set.
\<close>

theorem wait_reset_keeps_set_when_disarmed:
  "wait_reset (disarm (set_flag (Flag_new False))) = Some \<lparr>flag_m = True, disarmed_m = True\<rparr>
   \<and> is_set \<lparr>flag_m = True, disarmed_m = True\<rparr>"
  by (simp add: flag_defs)

text \<open>
  Claim C3, amended: in every state in which \<^verbatim>\<open>wait_reset()\<close> wakes up, if the flag is
  set and not disarmed the call clears it before it returns; if the flag is disarmed,
  set or not, the call returns without altering the state. In the one remaining state,
  clear and armed, the caller stays blocked.
\<close>

theorem wait_reset_cases:
  "(flag_m f \<and> \<not> disarmed_m f \<longrightarrow> wait_reset f = Some (f\<lparr>flag_m := False\<rparr>))
   \<and> (disarmed_m f \<longrightarrow> wait_reset f = Some f)
   \<and> (\<not> flag_m f \<and> \<not> disarmed_m f \<longrightarrow> wait_reset f = None)"
  by (simp add: flag_defs)

theorem wait_reset_cases_witness:
  "wait_reset (Flag_new True) = Some (Flag_new False)
   \<and> wait_reset (disarm (Flag_new False)) = Some (disarm (Flag_new False))
   \<and> wait_reset (disarm (set_flag (Flag_new False))) = Some (disarm (set_flag (Flag_new False)))
   \<and> wait_reset (Flag_new False) = None"
  using wait_reset_cases [of "Flag_new True"] wait_reset_cases [of "disarm (Flag_new False)"]
    wait_reset_cases [of "disarm (set_flag (Flag_new False))"] wait_reset_cases [of "Flag_new False"]
  by (simp add: Flag_new_def disarm_def set_flag_def)

section \<open>Properties of the running extremum\<close>

lemma atomic_maximum_step_cas:
  "atomic_maximum_step b s c at = cas_step (\<lambda>p c. \<not> p \<ge> c) b s c at"
  by (cases at) (auto simp: compare_exchange_weak_def)

lemma atomic_minimum_step_cas:
  "atomic_minimum_step b s c at = cas_step (\<lambda>p c. \<not> p \<le> c) b s c at"
  by (cases at) (auto simp: compare_exchange_weak_def)

lemma atomic_maximum_step_eq: "atomic_maximum_step = cas_step (\<lambda>p c. \<not> p \<ge> c)"
  by (intro ext) (rule atomic_maximum_step_cas)

lemma atomic_minimum_step_eq: "atomic_minimum_step = cas_step (\<lambda>p c. \<not> p \<le> c)"
  by (intro ext) (rule atomic_minimum_step_cas)

text \<open>One step of one thread: what it does to the shared value and to its own place.\<close>

lemma cas_step_cases:
  assumes tot: "\<And>x y. le x y \<or> le y x"
    and st: "cas_step (\<lambda>p c. \<not> le p c) b s c at = (s', at')"
  shows "(s' = s \<or> (s' = c \<and> le c s \<and> at' = Returned \<and> (\<exists>p. at = Loop p \<and> \<not> le p c \<and> s = p)))"
    and "at' = Loop q \<Longrightarrow> q = s'"
    and "at' = Returned \<Longrightarrow> s' = c \<or> at = Returned \<or> (\<exists>p. at = Loop p \<and> le p c \<and> s' = s)"
  using st tot [of c s] by (cases at; auto split: if_splits)+

lemma interleave_step_candidates:
  "map snd (snd (interleave_step step cfg e)) = map snd (snd cfg)"
  by (cases cfg; cases e)
    (auto simp: interleave_step_def map_update list_update_same_conv split: prod.splits)

lemma interleave_candidates:
  "map snd (snd (interleave step sched cfg)) = map snd (snd cfg)"
  unfolding interleave_def
  by (induction sched arbitrary: cfg) (simp_all add: interleave_step_candidates)

lemma cas_step_monotone:
  assumes refl: "\<And>x. le x x" and tot: "\<And>x y. le x y \<or> le y x"
  shows "le (fst (interleave_step (cas_step (\<lambda>p c. \<not> le p c)) cfg e)) (fst cfg)"
proof (cases cfg; cases e)
  fix s ts i b
  assume cfg: "cfg = (s, ts)" and e: "e = (i, b)"
  show ?thesis
  proof (cases "i < length ts")
    case False
    then show ?thesis by (simp add: cfg e interleave_step_def refl)
  next
    case True
    obtain s' at' where st: "cas_step (\<lambda>p c. \<not> le p c) b s (snd (ts ! i)) (fst (ts ! i)) = (s', at')"
      by (cases "cas_step (\<lambda>p c. \<not> le p c) b s (snd (ts ! i)) (fst (ts ! i))")
    from cas_step_cases(1) [OF tot st] have "le s' s" using refl by auto
    with True st show ?thesis by (simp add: cfg e interleave_step_def)
  qed
qed

lemma cas_inv_step:
  assumes refl: "\<And>x. le x x" and trans: "\<And>x y z. le x y \<Longrightarrow> le y z \<Longrightarrow> le x z"
    and tot: "\<And>x y. le x y \<or> le y x"
    and inv: "cas_inv le s0 cfg"
  shows "cas_inv le s0 (interleave_step (cas_step (\<lambda>p c. \<not> le p c)) cfg e)"
proof (cases cfg; cases e)
  fix s ts i b
  assume cfg: "cfg = (s, ts)" and e: "e = (i, b)"
  show ?thesis
  proof (cases "i < length ts")
    case False
    then show ?thesis using inv by (simp add: cfg e interleave_step_def)
  next
    case True
    define c where "c = snd (ts ! i)"
    define at where "at = fst (ts ! i)"
    obtain s' at' where st: "cas_step (\<lambda>p c. \<not> le p c) b s c at = (s', at')"
      by (cases "cas_step (\<lambda>p c. \<not> le p c) b s c at")
    have nxt: "interleave_step (cas_step (\<lambda>p c. \<not> le p c)) cfg e = (s', ts[i := (at', c)])"
      using True st by (simp add: cfg e interleave_step_def c_def at_def)
    have mem: "(at, c) \<in> set ts" using True by (simp add: c_def at_def)
    have cin: "c \<in> set (map snd ts)" using True by (simp add: c_def)
    have cands: "map snd (ts[i := (at', c)]) = map snd ts"
      using True by (simp add: map_update list_update_same_conv c_def)
    note cs = cas_step_cases [OF tot st]
    have mono: "le s' s" using cs(1) refl by auto
    from inv have i1: "le s s0" and i2: "s \<in> insert s0 (set (map snd ts))"
      and i3: "\<And>t p. t \<in> set ts \<Longrightarrow> fst t = Loop p \<Longrightarrow> le s p"
      and i4: "\<And>t. t \<in> set ts \<Longrightarrow> fst t = Returned \<Longrightarrow> le s (snd t)"
      by (auto simp: cas_inv_def cfg)
    have g1: "le s' s0" using mono i1 trans by blast
    have g2: "s' \<in> insert s0 (set (map snd ts))" using cs(1) i2 cin by auto
    have own3: "\<And>p. at' = Loop p \<Longrightarrow> le s' p" using cs(2) refl by auto
    have own4: "at' = Returned \<Longrightarrow> le s' c"
    proof -
      assume r: "at' = Returned"
      from cs(3) [OF r] show "le s' c"
      proof (elim disjE exE conjE)
        assume "s' = c" then show ?thesis by (simp add: refl)
      next
        assume "at = Returned"
        with i4 [OF mem] have "le s c" by simp
        with mono show ?thesis using trans by blast
      next
        fix p assume "at = Loop p" "le p c" "s' = s"
        with i3 [OF mem] trans show ?thesis by fastforce
      qed
    qed
    have g34: "\<forall>t \<in> set (ts[i := (at', c)]).
            (\<forall>p. fst t = Loop p \<longrightarrow> le s' p) \<and> (fst t = Returned \<longrightarrow> le s' (snd t))"
    proof
      fix t assume "t \<in> set (ts[i := (at', c)])"
      then have "t = (at', c) \<or> t \<in> set ts"
        using set_update_subset_insert [of ts i "(at', c)"] by auto
      then show "(\<forall>p. fst t = Loop p \<longrightarrow> le s' p) \<and> (fst t = Returned \<longrightarrow> le s' (snd t))"
      proof
        assume "t = (at', c)" then show ?thesis using own3 own4 by simp
      next
        assume t: "t \<in> set ts"
        show ?thesis using i3 [OF t] i4 [OF t] mono trans by blast
      qed
    qed
    show ?thesis
      unfolding nxt cas_inv_def using g1 g2 g34 cands by simp
  qed
qed

lemma cas_inv_interleave:
  assumes refl: "\<And>x. le x x" and trans: "\<And>x y z. le x y \<Longrightarrow> le y z \<Longrightarrow> le x z"
    and tot: "\<And>x y. le x y \<or> le y x"
  shows "cas_inv le s0 cfg \<Longrightarrow> cas_inv le s0 (interleave (cas_step (\<lambda>p c. \<not> le p c)) sched cfg)"
  unfolding interleave_def
proof (induction sched arbitrary: cfg)
  case Nil
  then show ?case by simp
next
  case (Cons e sched)
  show ?case
    using Cons.IH [OF cas_inv_step [of le, OF refl trans tot Cons.prems]] by simp
qed

lemma cas_inv_start:
  assumes refl: "\<And>x. le x x"
  shows "cas_inv le s0 (s0, proposals cs)"
  by (simp add: cas_inv_def proposals_def refl)

lemma cas_inv_final:
  assumes inv: "cas_inv le s0 (s, ts)" and fin: "all_returned ts"
  shows "s \<in> insert s0 (set (map snd ts)) \<and> (\<forall>x \<in> insert s0 (set (map snd ts)). le s x)"
  using inv fin by (auto simp: cas_inv_def all_returned_def list_all_iff)

lemma steps_alone_loop:
  "False \<in> set sched \<Longrightarrow>
   steps_alone (cas_step worse) sched s c (Loop s) = Some (if worse s c then c else s)"
proof (induction sched)
  case Nil
  then show ?case by simp
next
  case (Cons b sched)
  show ?case
  proof (cases "worse s c \<and> b")
    case True
    with Cons show ?thesis by auto
  next
    case False
    then show ?thesis by auto
  qed
qed

lemma steps_alone_entry:
  "False \<in> set (tl sched) \<Longrightarrow>
   steps_alone (cas_step worse) sched s c Entry = Some (if worse s c then c else s)"
  by (cases sched) (simp_all add: steps_alone_loop)

lemma steps_alone_loop_some:
  "steps_alone (cas_step worse) sched s c (Loop s) = Some r \<Longrightarrow> r = (if worse s c then c else s)"
proof (induction sched)
  case Nil
  then show ?case by simp
next
  case (Cons b sched)
  show ?case
  proof (cases "worse s c \<and> b")
    case True
    with Cons show ?thesis by auto
  next
    case False
    with Cons.prems show ?thesis by (auto split: if_splits)
  qed
qed

lemma steps_alone_entry_some:
  "steps_alone (cas_step worse) sched s c Entry = Some r \<Longrightarrow> r = (if worse s c then c else s)"
  by (cases sched) (simp_all add: steps_alone_loop_some)

lemma atomic_minimum_some:
  fixes s c :: "'a::linorder"
  shows "atomic_minimum sched s c = Some r \<Longrightarrow> r = (if c < s then c else s)"
  unfolding atomic_minimum_def atomic_minimum_step_eq
  by (drule steps_alone_entry_some) (simp add: not_le)

lemma atomic_maximum_some:
  fixes s c :: "'a::linorder"
  shows "atomic_maximum sched s c = Some r \<Longrightarrow> r = (if s < c then c else s)"
  unfolding atomic_maximum_def atomic_maximum_step_eq
  by (drule steps_alone_entry_some) (simp add: not_le)

lemma atomic_minimum_returns:
  fixes s c :: "'a::linorder"
  shows "False \<in> set (tl sched) \<Longrightarrow> atomic_minimum sched s c = Some (if c < s then c else s)"
  unfolding atomic_minimum_def atomic_minimum_step_eq
  by (simp add: steps_alone_entry not_le)

lemma atomic_maximum_returns:
  fixes s c :: "'a::linorder"
  shows "False \<in> set (tl sched) \<Longrightarrow> atomic_maximum sched s c = Some (if s < c then c else s)"
  unfolding atomic_maximum_def atomic_maximum_step_eq
  by (simp add: steps_alone_entry not_le)

lemma minimum_inv:
  fixes s0 :: "'a::linorder"
  shows "cas_inv (\<le>) s0 (interleave atomic_minimum_step il (s0, proposals cs))"
  unfolding atomic_minimum_step_eq
  by (rule cas_inv_interleave [of "(\<le>)"]) (auto intro: cas_inv_start)

lemma maximum_inv:
  fixes s0 :: "'a::linorder"
  shows "cas_inv (\<ge>) s0 (interleave atomic_maximum_step il (s0, proposals cs))"
  unfolding atomic_maximum_step_eq
  by (rule cas_inv_interleave [of "(\<ge>)"]) (auto intro: cas_inv_start)

lemma interleave_proposals:
  "set (map snd (snd (interleave step il (s0, proposals cs)))) = set cs"
  by (simp add: interleave_candidates proposals_def comp_def)

lemma minimum_converges:
  fixes s0 :: "'a::linorder"
  assumes "all_returned (snd (interleave atomic_minimum_step il (s0, proposals cs)))"
  shows "fst (interleave atomic_minimum_step il (s0, proposals cs)) = Min (insert s0 (set cs))"
proof -
  obtain s ts where cfg: "interleave atomic_minimum_step il (s0, proposals cs) = (s, ts)"
    by (cases "interleave atomic_minimum_step il (s0, proposals cs)")
  have inv: "cas_inv (\<le>) s0 (s, ts)" using minimum_inv [of s0 il cs] by (simp add: cfg)
  have ts: "set (map snd ts) = set cs" using interleave_proposals [of atomic_minimum_step il s0 cs] by (simp add: cfg)
  have "all_returned ts" using assms by (simp add: cfg)
  from cas_inv_final [OF inv this]
  have "s \<in> insert s0 (set cs)" "\<forall>x \<in> insert s0 (set cs). s \<le> x"
    unfolding ts by blast+
  then have "Min (insert s0 (set cs)) = s" by (intro Min_eqI) auto
  then show ?thesis by (simp add: cfg)
qed

lemma maximum_converges:
  fixes s0 :: "'a::linorder"
  assumes "all_returned (snd (interleave atomic_maximum_step il (s0, proposals cs)))"
  shows "fst (interleave atomic_maximum_step il (s0, proposals cs)) = Max (insert s0 (set cs))"
proof -
  obtain s ts where cfg: "interleave atomic_maximum_step il (s0, proposals cs) = (s, ts)"
    by (cases "interleave atomic_maximum_step il (s0, proposals cs)")
  have inv: "cas_inv (\<ge>) s0 (s, ts)" using maximum_inv [of s0 il cs] by (simp add: cfg)
  have ts: "set (map snd ts) = set cs" using interleave_proposals [of atomic_maximum_step il s0 cs] by (simp add: cfg)
  have "all_returned ts" using assms by (simp add: cfg)
  from cas_inv_final [OF inv this]
  have "s \<in> insert s0 (set cs)" "\<forall>x \<in> insert s0 (set cs). s \<ge> x"
    unfolding ts by blast+
  then have "Max (insert s0 (set cs)) = s" by (intro Max_eqI) auto
  then show ?thesis by (simp add: cfg)
qed

lemma minimum_applied:
  fixes s0 :: "'a::linorder"
  assumes "t \<in> set (snd (interleave atomic_minimum_step il (s0, proposals cs)))" "fst t = Returned"
  shows "fst (interleave atomic_minimum_step il (s0, proposals cs)) \<le> snd t"
  using minimum_inv [of s0 il cs] assms by (auto simp: cas_inv_def)

lemma maximum_applied:
  fixes s0 :: "'a::linorder"
  assumes "t \<in> set (snd (interleave atomic_maximum_step il (s0, proposals cs)))" "fst t = Returned"
  shows "fst (interleave atomic_maximum_step il (s0, proposals cs)) \<ge> snd t"
  using maximum_inv [of s0 il cs] assms by (auto simp: cas_inv_def)

lemma minimum_monotone:
  fixes cfg :: "'a::linorder \<times> 'a threads"
  shows "fst (interleave_step atomic_minimum_step cfg e) \<le> fst cfg"
  unfolding atomic_minimum_step_eq by (rule cas_step_monotone [of "(\<le>)"]) auto

lemma maximum_monotone:
  fixes cfg :: "'a::linorder \<times> 'a threads"
  shows "fst (interleave_step atomic_maximum_step cfg e) \<ge> fst cfg"
  unfolding atomic_maximum_step_eq by (rule cas_step_monotone [of "(\<ge>)"]) auto

text \<open>Every start has an execution in which all threads return.\<close>

lemma cas_step_twice:
  assumes "cas_step worse False s c at = (s1, at1)" "cas_step worse False s1 c at1 = (s2, at2)"
  shows "at2 = Returned"
  using assms by (cases at) (auto split: if_splits)

lemma interleave_step_other:
  assumes "interleave_step step (s, ts) (i, b) = (s', ts')"
  shows "length ts' = length ts" and "j \<noteq> i \<Longrightarrow> ts' ! j = ts ! j"
  using assms by (auto simp: interleave_step_def split: if_splits prod.splits)

lemma interleave_step_own:
  assumes "interleave_step step (s, ts) (i, b) = (s', ts')" "i < length ts"
  shows "step b s (snd (ts ! i)) (fst (ts ! i)) = (s', fst (ts' ! i))" and "snd (ts' ! i) = snd (ts ! i)"
  using assms by (auto simp: interleave_step_def split: if_splits prod.splits)

lemma turn_returns:
  assumes run: "interleave (cas_step worse) [(i, False), (i, False)] (s, ts) = (s', ts')"
    and i: "i < length ts"
  shows "length ts' = length ts" and "fst (ts' ! i) = Returned" and "\<And>j. j \<noteq> i \<Longrightarrow> ts' ! j = ts ! j"
proof -
  obtain s1 ts1 where st1: "interleave_step (cas_step worse) (s, ts) (i, False) = (s1, ts1)"
    by (cases "interleave_step (cas_step worse) (s, ts) (i, False)")
  from run st1 have st2: "interleave_step (cas_step worse) (s1, ts1) (i, False) = (s', ts')"
    by (simp add: interleave_def)
  note o1 = interleave_step_other [OF st1] and o2 = interleave_step_other [OF st2]
  show "length ts' = length ts" using o1(1) o2(1) by simp
  show "\<And>j. j \<noteq> i \<Longrightarrow> ts' ! j = ts ! j" using o1(2) o2(2) by simp
  have i1: "i < length ts1" using i o1(1) by simp
  note w1 = interleave_step_own [OF st1 i] and w2 = interleave_step_own [OF st2 i1]
  from w1 w2 show "fst (ts' ! i) = Returned"
    using cas_step_twice [of worse s "snd (ts ! i)" "fst (ts ! i)" s1 "fst (ts1 ! i)" s' "fst (ts' ! i)"]
    by simp
qed

lemma one_by_one_returns:
  "n \<le> length ts \<Longrightarrow>
   length (snd (interleave (cas_step worse) (one_by_one n) (s, ts))) = length ts
   \<and> (\<forall>j < n. fst (snd (interleave (cas_step worse) (one_by_one n) (s, ts)) ! j) = Returned)"
proof (induction n)
  case 0
  then show ?case by (simp add: one_by_one_def interleave_def)
next
  case (Suc n)
  obtain s1 ts1 where mid: "interleave (cas_step worse) (one_by_one n) (s, ts) = (s1, ts1)"
    by (cases "interleave (cas_step worse) (one_by_one n) (s, ts)")
  from Suc mid have len1: "length ts1 = length ts" and done1: "\<forall>j < n. fst (ts1 ! j) = Returned"
    by simp_all
  obtain s2 ts2 where last: "interleave (cas_step worse) [(n, False), (n, False)] (s1, ts1) = (s2, ts2)"
    by (cases "interleave (cas_step worse) [(n, False), (n, False)] (s1, ts1)")
  have all: "interleave (cas_step worse) (one_by_one (Suc n)) (s, ts) = (s2, ts2)"
    using mid last by (simp add: one_by_one_def interleave_def)
  have n: "n < length ts1" using Suc.prems len1 by simp
  note t = turn_returns [OF last n]
  have "\<forall>j < Suc n. fst (ts2 ! j) = Returned"
  proof (intro allI impI)
    fix j assume "j < Suc n"
    show "fst (ts2 ! j) = Returned"
    proof (cases "j = n")
      case True
      then show ?thesis using t(2) by simp
    next
      case False
      with \<open>j < Suc n\<close> have "j < n" by simp
      with done1 t(3) [OF False] show ?thesis by simp
    qed
  qed
  with t(1) len1 show ?case by (simp add: all)
qed

lemma one_by_one_all_returned:
  "all_returned (snd (interleave (cas_step worse) (one_by_one (length cs)) (s, proposals cs)))"
  using one_by_one_returns [of "length cs" "proposals cs" worse s]
  by (simp add: all_returned_def list_all_length proposals_def)

lemma one_by_one_completes:
  "all_returned (snd (interleave (cas_step worse) (il @ one_by_one (length cs)) (s, proposals cs)))"
proof -
  obtain s1 ts1 where mid: "interleave (cas_step worse) il (s, proposals cs) = (s1, ts1)"
    by (cases "interleave (cas_step worse) il (s, proposals cs)")
  have "map snd ts1 = map snd (proposals cs)"
    using interleave_candidates [of "cas_step worse" il "(s, proposals cs)"] by (simp add: mid)
  then have "length (map snd ts1) = length (map snd (proposals cs))" by simp
  then have len: "length ts1 = length cs" by (simp add: proposals_def)
  have split: "interleave (cas_step worse) (il @ one_by_one (length cs)) (s, proposals cs)
      = interleave (cas_step worse) (one_by_one (length cs)) (s1, ts1)"
    using mid by (simp add: interleave_def)
  from one_by_one_returns [of "length cs" ts1 worse s1] len
  show ?thesis unfolding split by (simp add: all_returned_def list_all_length)
qed

text \<open>
  Claim C5: a call of \<^verbatim>\<open>atomic_minimum\<close> that returns has put the candidate in place
  exactly when the candidate is less than the shared value, and has left the shared value
  alone otherwise; \<^verbatim>\<open>atomic_maximum\<close> likewise with greater. A call returns as soon as one
  exchange does not fail spuriously. With one proposal per thread, in every interleaving
  and under every pattern of spurious failures, once all threads have returned the shared
  value is the minimum (the maximum) of the initial value and all proposals. At every
  moment the shared value is at most (at least) the candidate of every thread that has
  returned, and no step moves it up (down). Executions in which all threads return
  exist for every start: the threads running one after the other is one. The same
  continuation makes all threads return from whatever an execution has reached.
\<close>

theorem atomic_extremum:
  fixes s c :: "'a::linorder"
  shows
    "(\<forall>r. atomic_minimum sched s c = Some r \<longrightarrow> r = (if c < s then c else s))
     \<and> (\<forall>r. atomic_maximum sched s c = Some r \<longrightarrow> r = (if c > s then c else s))
     \<and> (False \<in> set (tl sched) \<longrightarrow>
          atomic_minimum sched s c = Some (if c < s then c else s)
          \<and> atomic_maximum sched s c = Some (if c > s then c else s))
     \<and> (all_returned (snd (interleave atomic_minimum_step il (s, proposals cs))) \<longrightarrow>
          fst (interleave atomic_minimum_step il (s, proposals cs)) = Min (insert s (set cs)))
     \<and> (all_returned (snd (interleave atomic_maximum_step il (s, proposals cs))) \<longrightarrow>
          fst (interleave atomic_maximum_step il (s, proposals cs)) = Max (insert s (set cs)))
     \<and> (\<forall>t \<in> set (snd (interleave atomic_minimum_step il (s, proposals cs))).
          fst t = Returned \<longrightarrow> fst (interleave atomic_minimum_step il (s, proposals cs)) \<le> snd t)
     \<and> (\<forall>t \<in> set (snd (interleave atomic_maximum_step il (s, proposals cs))).
          fst t = Returned \<longrightarrow> fst (interleave atomic_maximum_step il (s, proposals cs)) \<ge> snd t)
     \<and> fst (interleave_step atomic_minimum_step (s, ts) e) \<le> s
     \<and> fst (interleave_step atomic_maximum_step (s, ts) e) \<ge> s
     \<and> all_returned (snd (interleave atomic_minimum_step (one_by_one (length cs)) (s, proposals cs)))
     \<and> all_returned (snd (interleave atomic_maximum_step (one_by_one (length cs)) (s, proposals cs)))
     \<and> all_returned
          (snd (interleave atomic_minimum_step (il @ one_by_one (length cs)) (s, proposals cs)))
     \<and> all_returned
          (snd (interleave atomic_maximum_step (il @ one_by_one (length cs)) (s, proposals cs)))"
proof (intro conjI allI ballI impI)
  fix r assume "atomic_minimum sched s c = Some r"
  then show "r = (if c < s then c else s)" by (rule atomic_minimum_some)
next
  fix r assume "atomic_maximum sched s c = Some r"
  then show "r = (if c > s then c else s)" by (rule atomic_maximum_some)
next
  assume "False \<in> set (tl sched)"
  then show "atomic_minimum sched s c = Some (if c < s then c else s)" by (rule atomic_minimum_returns)
next
  assume "False \<in> set (tl sched)"
  then show "atomic_maximum sched s c = Some (if c > s then c else s)" by (rule atomic_maximum_returns)
next
  assume "all_returned (snd (interleave atomic_minimum_step il (s, proposals cs)))"
  then show "fst (interleave atomic_minimum_step il (s, proposals cs)) = Min (insert s (set cs))"
    by (rule minimum_converges)
next
  assume "all_returned (snd (interleave atomic_maximum_step il (s, proposals cs)))"
  then show "fst (interleave atomic_maximum_step il (s, proposals cs)) = Max (insert s (set cs))"
    by (rule maximum_converges)
next
  fix t assume "t \<in> set (snd (interleave atomic_minimum_step il (s, proposals cs)))" "fst t = Returned"
  then show "fst (interleave atomic_minimum_step il (s, proposals cs)) \<le> snd t" by (rule minimum_applied)
next
  fix t assume "t \<in> set (snd (interleave atomic_maximum_step il (s, proposals cs)))" "fst t = Returned"
  then show "fst (interleave atomic_maximum_step il (s, proposals cs)) \<ge> snd t" by (rule maximum_applied)
next
  show "fst (interleave_step atomic_minimum_step (s, ts) e) \<le> s"
    using minimum_monotone [of "(s, ts)" e] by simp
next
  show "fst (interleave_step atomic_maximum_step (s, ts) e) \<ge> s"
    using maximum_monotone [of "(s, ts)" e] by simp
next
  show "all_returned (snd (interleave atomic_minimum_step (one_by_one (length cs)) (s, proposals cs)))"
    unfolding atomic_minimum_step_eq by (rule one_by_one_all_returned)
next
  show "all_returned (snd (interleave atomic_maximum_step (one_by_one (length cs)) (s, proposals cs)))"
    unfolding atomic_maximum_step_eq by (rule one_by_one_all_returned)
next
  show "all_returned
      (snd (interleave atomic_minimum_step (il @ one_by_one (length cs)) (s, proposals cs)))"
    unfolding atomic_minimum_step_eq by (rule one_by_one_completes)
next
  show "all_returned
      (snd (interleave atomic_maximum_step (il @ one_by_one (length cs)) (s, proposals cs)))"
    unfolding atomic_maximum_step_eq by (rule one_by_one_completes)
qed

theorem atomic_extremum_witness:
  "atomic_minimum [True, True, False] (5::nat) 3 = Some 3
   \<and> atomic_maximum [True, True, False] (5::nat) 3 = Some 5
   \<and> interleave atomic_minimum_step
        [(0, False), (1, False), (2, False), (1, True), (0, False), (2, False), (1, False), (1, False), (2, False)]
        (5::nat, proposals [7, 3, 4]) = (3, [(Returned, 7), (Returned, 3), (Returned, 4)])
   \<and> interleave atomic_maximum_step
        [(0, False), (1, False), (2, False), (1, True), (0, False), (2, False), (1, False), (1, False), (2, False)]
        (5::nat, proposals [7, 3, 4]) = (7, [(Returned, 7), (Returned, 3), (Returned, 4)])"
proof -
  let ?il = "[(0::nat, False), (1, False), (2, False), (1, True), (0, False), (2, False), (1, False), (1, False), (2, False)]"
  have mn: "interleave atomic_minimum_step ?il (5::nat, proposals [7, 3, 4])
      = (3, [(Returned, 7), (Returned, 3), (Returned, 4)])"
    by code_simp
  have mx: "interleave atomic_maximum_step ?il (5::nat, proposals [7, 3, 4])
      = (7, [(Returned, 7), (Returned, 3), (Returned, 4)])"
    by code_simp
  have fin: "all_returned [(Returned, 7::nat), (Returned, 3), (Returned, 4)]"
    by (simp add: all_returned_def)
  have sch: "False \<in> set (tl [True, True, False])" by simp
  from atomic_extremum [where sched = "[True, True, False]" and s = "5::nat" and c = 3
      and il = ?il and cs = "[7, 3, 4]" and ts = "[]" and e = "(0, False)"]
  show ?thesis
    unfolding mn mx using fin sch by simp
qed

section \<open>Properties of the process-wide context\<close>

lemma report_epoch_count_some:
  assumes "report_epoch_count c sched e = Some c'"
  shows "c' = c\<lparr>epoch_count_m := min (epoch_count_m c) e\<rparr>"
proof -
  from assms obtain r where r: "atomic_minimum sched (epoch_count_m c) e = Some r"
    and c': "c' = c\<lparr>epoch_count_m := r\<rparr>"
    by (auto simp: report_epoch_count_def)
  from atomic_minimum_some [OF r] have "r = min (epoch_count_m c) e"
    by (auto simp: min_def)
  with c' show ?thesis by simp
qed

lemma report_all_some:
  "report_all c rs = Some c' \<Longrightarrow>
   c' = c\<lparr>epoch_count_m := Min (insert (epoch_count_m c) (set (map snd rs)))\<rparr>"
proof (induction rs arbitrary: c)
  case Nil
  then show ?case by simp
next
  case (Cons r rs)
  from Cons.prems obtain c1 where c1: "report_epoch_count c (fst r) (snd r) = Some c1"
    and rest: "report_all c1 rs = Some c'"
    by (auto split: option.splits)
  note s1 = report_epoch_count_some [OF c1]
  have "Min (insert (min (epoch_count_m c) (snd r)) (set (map snd rs)))
      = Min (insert (epoch_count_m c) (insert (snd r) (set (map snd rs))))"
    by (cases "set (map snd rs) = {}") (simp_all add: min.assoc)
  with Cons.IH [OF rest] s1 show ?case by simp
qed

lemma report_all_returns:
  "\<forall>r \<in> set rs. False \<in> set (tl (fst r)) \<Longrightarrow> report_all c rs \<noteq> None"
proof (induction rs arbitrary: c)
  case Nil
  then show ?case by simp
next
  case (Cons r rs)
  then have "False \<in> set (tl (fst r))" by simp
  from atomic_minimum_returns [OF this, of "epoch_count_m c" "snd r"]
  obtain c1 where "report_epoch_count c (fst r) (snd r) = Some c1"
    by (auto simp: report_epoch_count_def)
  with Cons show ?case by simp
qed

text \<open>
  Claim C6: while the counter holds the unset sentinel, as it does before any report,
  \<^verbatim>\<open>epoch_count()\<close> returns 0; it never returns the sentinel \<^verbatim>\<open>(size_t)-1\<close>, whatever the
  counter holds. After a sequence of reports on an unset counter, one of them below the
  sentinel, it returns the minimum of the reported values. A sequence of reports returns
  when in each of them some exchange does not fail spuriously.
\<close>

theorem epoch_count_unset_is_zero:
  "(epoch_count_m c = epoch_count_unset \<longrightarrow> epoch_count c = 0)
   \<and> epoch_count c \<noteq> - 1
   \<and> (epoch_count_m c = epoch_count_unset \<and> report_all c rs = Some c' \<and> (\<exists>r \<in> set rs. snd r < - 1)
        \<longrightarrow> epoch_count c' = Min (set (map snd rs)))
   \<and> ((\<forall>r \<in> set rs. False \<in> set (tl (fst r))) \<longrightarrow> report_all c rs \<noteq> None)"
proof (intro conjI impI)
  assume "epoch_count_m c = epoch_count_unset"
  then show "epoch_count c = 0" by (simp add: epoch_count_def epoch_count_unset_def Let_def)
next
  show "epoch_count c \<noteq> - 1" by (simp add: epoch_count_def Let_def)
next
  assume a: "epoch_count_m c = epoch_count_unset \<and> report_all c rs = Some c' \<and> (\<exists>r \<in> set rs. snd r < - 1)"
  then obtain r where r: "r \<in> set rs" "snd r < - 1" by blast
  let ?S = "set (map snd rs)"
  have ne: "?S \<noteq> {}" using r by auto
  have "epoch_count_m c' = Min (insert (- 1) ?S)"
    using report_all_some [of c rs c'] a by (simp add: epoch_count_unset_def)
  also have "\<dots> = min (- 1) (Min ?S)" using ne by (intro Min_insert) simp_all
  also have "\<dots> = Min ?S" by (rule min.absorb2) simp
  finally have m: "epoch_count_m c' = Min ?S" .
  have "Min ?S \<le> snd r" using r by (intro Min_le) auto
  from this r(2) have "Min ?S < - 1" by (rule le_less_trans)
  then have "Min ?S \<noteq> - 1" by (rule less_imp_neq)
  with m show "epoch_count c' = Min (set (map snd rs))" by (simp add: epoch_count_def Let_def)
next
  assume "\<forall>r \<in> set rs. False \<in> set (tl (fst r))"
  then show "report_all c rs \<noteq> None" by (rule report_all_returns)
qed

theorem epoch_count_unset_is_zero_witness:
  "epoch_count \<lparr>root_device_m = 0, mode_m = CPU, gpus_m = [0], epoch_count_m = epoch_count_unset, init_calls = 0\<rparr> = 0
   \<and> report_all \<lparr>root_device_m = 0, mode_m = CPU, gpus_m = [0], epoch_count_m = epoch_count_unset, init_calls = 0\<rparr>
        [([True, False], 7), ([False, True, False], 4), ([True, False], 9)]
       = Some \<lparr>root_device_m = 0, mode_m = CPU, gpus_m = [0], epoch_count_m = 4, init_calls = 0\<rparr>
   \<and> epoch_count \<lparr>root_device_m = 0, mode_m = CPU, gpus_m = [0], epoch_count_m = 4, init_calls = 0\<rparr> = 4"
proof -
  let ?c = "\<lparr>root_device_m = 0, mode_m = CPU, gpus_m = [0], epoch_count_m = epoch_count_unset, init_calls = 0\<rparr>"
  let ?rs = "[([True, False], 7), ([False, True, False], 4), ([True, False], 9)] :: (bool list \<times> 64 word) list"
  let ?c' = "\<lparr>root_device_m = 0, mode_m = CPU, gpus_m = [0], epoch_count_m = 4, init_calls = 0\<rparr>"
  have run: "report_all ?c ?rs = Some ?c'"
    by (simp add: report_epoch_count_def atomic_minimum_def compare_exchange_weak_def
        epoch_count_unset_def)
  have below: "\<exists>r \<in> set ?rs. snd r < - 1" by simp
  have fair: "\<forall>r \<in> set ?rs. False \<in> set (tl (fst r))" by simp
  have unset: "epoch_count_m ?c = epoch_count_unset" by simp
  have mn: "Min (set (map snd ?rs)) = 4" by simp
  from epoch_count_unset_is_zero [of ?c ?rs ?c'] unset run below fair
  show ?thesis unfolding mn by simp
qed

text \<open>
  Claim C7: for every list, \<^verbatim>\<open>set_gpus\<close> leaves the device list non-empty: for the empty
  list it becomes the list holding the root device only, and for a non-empty list it
  becomes that list. The root device is not changed.
\<close>

theorem set_gpus_nonempty:
  "gpus (set_gpus c gs) \<noteq> []
   \<and> gpus (set_gpus c []) = [root_device c]
   \<and> (gs \<noteq> [] \<longrightarrow> gpus (set_gpus c gs) = gs)
   \<and> root_device (set_gpus c gs) = root_device c"
  by (simp add: set_gpus_def gpus_def root_device_def Let_def)

theorem set_gpus_nonempty_witness:
  "gpus (set_gpus \<lparr>root_device_m = 3, mode_m = GPU, gpus_m = [3], epoch_count_m = 0, init_calls = 0\<rparr> []) = [3]
   \<and> gpus (set_gpus \<lparr>root_device_m = 3, mode_m = GPU, gpus_m = [3], epoch_count_m = 0, init_calls = 0\<rparr> [1, 0, 3])
       = [1, 0, 3]"
  using set_gpus_nonempty [of "\<lparr>root_device_m = 3, mode_m = GPU, gpus_m = [3], epoch_count_m = 0, init_calls = 0\<rparr>" "[1, 0, 3]"]
  by (simp add: root_device_def)

text \<open>
  Claim C8: \<^verbatim>\<open>set_mode(m)\<close> with the current mode changes nothing, and \<^verbatim>\<open>init()\<close> is not
  called; with a different mode it stores the mode and calls \<^verbatim>\<open>init()\<close> once. Setting the
  same mode a second time changes nothing more.
\<close>

theorem set_mode_reinit:
  "(mode c = m \<longrightarrow> set_mode c m = c)
   \<and> (mode c \<noteq> m \<longrightarrow>
        mode (set_mode c m) = m \<and> init_calls (set_mode c m) = Suc (init_calls c)
        \<and> set_mode c m = init (c\<lparr>mode_m := m\<rparr>))
   \<and> set_mode (set_mode c m) m = set_mode c m"
  by (simp add: set_mode_def mode_def init_def)

theorem set_mode_reinit_witness:
  "set_mode \<lparr>root_device_m = 0, mode_m = CPU, gpus_m = [0], epoch_count_m = 0, init_calls = 0\<rparr> CPU
     = \<lparr>root_device_m = 0, mode_m = CPU, gpus_m = [0], epoch_count_m = 0, init_calls = 0\<rparr>
   \<and> set_mode \<lparr>root_device_m = 0, mode_m = CPU, gpus_m = [0], epoch_count_m = 0, init_calls = 0\<rparr> GPU
     = \<lparr>root_device_m = 0, mode_m = GPU, gpus_m = [0], epoch_count_m = 0, init_calls = 1\<rparr>"
  using set_mode_reinit [of "\<lparr>root_device_m = 0, mode_m = CPU, gpus_m = [0], epoch_count_m = 0, init_calls = 0\<rparr>" CPU]
    set_mode_reinit [of "\<lparr>root_device_m = 0, mode_m = CPU, gpus_m = [0], epoch_count_m = 0, init_calls = 0\<rparr>" GPU]
  by (simp add: mode_def init_def)

section \<open>Properties of the guarded map\<close>

lemma M_find_le: "M_find m key \<le> length m"
  by (induction m) simp_all

lemma M_find_end: "(M_find m key = length m) = (key \<notin> fst ` set m)"
proof (induction m)
  case Nil
  then show ?case by simp
next
  case (Cons e m)
  then show ?case by (cases e) auto
qed

lemma M_find_in_range: "M_find m key \<noteq> M_end m \<Longrightarrow> M_find m key < length m"
  using M_find_le [of m key] by (simp add: M_end_def)

lemma M_find_key: "M_find m key < length m \<Longrightarrow> fst (m ! M_find m key) = key"
  by (induction m) (auto split: if_splits)

lemma M_find_map_of:
  "(if M_find m key = length m then None else Some (snd (m ! M_find m key))) = map_of m key"
  by (induction m) auto

lemma lookup_map_of: "lookup s key = map_of (map_m s) key"
  using M_find_map_of [of "map_m s" key] by (simp add: lookup_def M_end_def Let_def)

lemma map_of_emplace:
  "key \<notin> fst ` set m \<Longrightarrow> map_of (M_emplace m key v) = (map_of m)(key \<mapsto> v)"
  by (induction m) (auto simp: fun_eq_iff)

lemma map_of_assign:
  "M_find m key < length m \<Longrightarrow>
   map_of (m[M_find m key := (fst (m ! M_find m key), v)]) = (map_of m)(key \<mapsto> v)"
  by (induction m) (auto simp: fun_eq_iff split: if_splits)

lemma lookup_new: "lookup ThreadSafeMap_new k = None"
  by (simp add: lookup_map_of ThreadSafeMap_new_def)

text \<open>One call: it never faults, and what it does to the value under every key.\<close>

lemma insert_max_lookup:
  "\<exists>s'. insert_max s key v = Inr s'
     \<and> lookup s' = (lookup s)(key \<mapsto> (case lookup s key of None \<Rightarrow> v | Some old \<Rightarrow> if v > old then v else old))"
proof (cases "M_find (map_m s) key = M_end (map_m s)")
  case True
  then have absent: "key \<notin> fst ` set (map_m s)" by (simp add: M_end_def M_find_end)
  then have "lookup s key = None" by (simp add: lookup_map_of map_of_eq_None_iff)
  with True absent show ?thesis
    by (simp add: insert_max_def Let_def fun_eq_iff lookup_map_of map_of_emplace)
next
  case False
  note rng = M_find_in_range [OF False]
  have old: "lookup s key = Some (snd (map_m s ! M_find (map_m s) key))"
    using False by (simp add: lookup_def)
  show ?thesis
  proof (cases "v > snd (map_m s ! M_find (map_m s) key)")
    case True
    with False rng old show ?thesis
      by (simp add: insert_max_def Let_def M_deref_def M_assign_def fun_eq_iff lookup_map_of map_of_assign)
  next
    case nogt: False
    with False rng old show ?thesis
      by (auto simp: insert_max_def Let_def M_deref_def fun_eq_iff)
  qed
qed

lemma Max_insert_max:
  fixes a b :: "'a::linorder"
  shows "finite S \<Longrightarrow> Max (insert (max a b) S) = Max (insert a (insert b S))"
  by (cases "S = {}") (simp_all add: max.assoc)

lemma insert_max_all_lookup:
  "\<exists>s'. insert_max_all s kvs = Inr s'
     \<and> lookup s' k =
         (case lookup s k of
            None \<Rightarrow> if offered kvs k = [] then None else Some (Max (set (offered kvs k)))
          | Some v0 \<Rightarrow> Some (Max (insert v0 (set (offered kvs k)))))"
proof (induction kvs arbitrary: s)
  case Nil
  then show ?case by (simp add: offered_def split: option.splits)
next
  case (Cons kv kvs)
  obtain s1 where s1: "insert_max s (fst kv) (snd kv) = Inr s1"
    and l1: "lookup s1 = (lookup s)(fst kv \<mapsto>
        (case lookup s (fst kv) of None \<Rightarrow> snd kv | Some old \<Rightarrow> if snd kv > old then snd kv else old))"
    using insert_max_lookup [of s "fst kv" "snd kv"] by blast
  from Cons.IH [of s1] obtain s' where s': "insert_max_all s1 kvs = Inr s'"
    and l': "lookup s' k =
         (case lookup s1 k of
            None \<Rightarrow> if offered kvs k = [] then None else Some (Max (set (offered kvs k)))
          | Some v0 \<Rightarrow> Some (Max (insert v0 (set (offered kvs k)))))"
    by blast
  have run: "insert_max_all s (kv # kvs) = Inr s'" using s1 s' by simp
  show ?case
  proof (cases "fst kv = k")
    case False
    then have "lookup s1 k = lookup s k" "offered (kv # kvs) k = offered kvs k"
      by (simp_all add: l1 offered_def)
    with run l' show ?thesis by (simp split: option.splits)
  next
    case True
    have off: "offered (kv # kvs) k = snd kv # offered kvs k" using True by (simp add: offered_def)
    show ?thesis
    proof (cases "lookup s k")
      case None
      then have "lookup s1 k = Some (snd kv)" using True by (simp add: l1)
      with run l' None off show ?thesis by simp
    next
      case (Some old)
      then have "lookup s1 k = Some (max old (snd kv))" using True by (auto simp: l1 max_def)
      with run l' Some off show ?thesis by (simp add: Max_insert_max)
    qed
  qed
qed

text \<open>
  Claim C4: \<^verbatim>\<open>insert_max(key, value)\<close> inserts the pair when the key is absent; when the
  key is present it replaces the stored value only if the offered one is strictly
  greater; every other key keeps its value. Hence after any sequence of calls on a fresh
  map the value under each key is the maximum of the values offered for that key (and no
  entry exists for a key that was never offered); on a map that already holds a value
  under the key, that value counts among them. No call runs into a fault.
\<close>

theorem insert_max_keeps_maximum:
  "(lookup s key = None \<longrightarrow> (\<exists>s'. insert_max s key v = Inr s' \<and> lookup s' key = Some v))
   \<and> (\<forall>old. lookup s key = Some old \<longrightarrow>
        (\<exists>s'. insert_max s key v = Inr s' \<and> lookup s' key = Some (if v > old then v else old)))
   \<and> (\<forall>k. k \<noteq> key \<longrightarrow> (\<exists>s'. insert_max s key v = Inr s' \<and> lookup s' k = lookup s k))
   \<and> (\<exists>s'. insert_max_all ThreadSafeMap_new kvs = Inr s'
         \<and> lookup s' k = (if offered kvs k = [] then None else Some (Max (set (offered kvs k)))))
   \<and> (\<exists>s'. insert_max_all s kvs = Inr s'
         \<and> lookup s' k =
             (case lookup s k of
                None \<Rightarrow> if offered kvs k = [] then None else Some (Max (set (offered kvs k)))
              | Some v0 \<Rightarrow> Some (Max (insert v0 (set (offered kvs k))))))"
proof (intro conjI allI impI)
  assume "lookup s key = None"
  with insert_max_lookup [of s key v]
  show "\<exists>s'. insert_max s key v = Inr s' \<and> lookup s' key = Some v" by auto
next
  fix old assume "lookup s key = Some old"
  with insert_max_lookup [of s key v]
  show "\<exists>s'. insert_max s key v = Inr s' \<and> lookup s' key = Some (if v > old then v else old)" by auto
next
  fix k assume "k \<noteq> key"
  with insert_max_lookup [of s key v]
  show "\<exists>s'. insert_max s key v = Inr s' \<and> lookup s' k = lookup s k" by auto
next
  from insert_max_all_lookup [of ThreadSafeMap_new kvs k]
  show "\<exists>s'. insert_max_all ThreadSafeMap_new kvs = Inr s'
         \<and> lookup s' k = (if offered kvs k = [] then None else Some (Max (set (offered kvs k))))"
    by (simp add: lookup_new)
next
  show "\<exists>s'. insert_max_all s kvs = Inr s'
         \<and> lookup s' k =
             (case lookup s k of
                None \<Rightarrow> if offered kvs k = [] then None else Some (Max (set (offered kvs k)))
              | Some v0 \<Rightarrow> Some (Max (insert v0 (set (offered kvs k)))))"
    by (rule insert_max_all_lookup)
qed

theorem insert_max_keeps_maximum_witness:
  "insert_max ThreadSafeMap_new (2::nat) (5::nat) = Inr \<lparr>map_m = [(2, 5)]\<rparr>
   \<and> insert_max \<lparr>map_m = [(2::nat, 5::nat)]\<rparr> 2 9 = Inr \<lparr>map_m = [(2, 9)]\<rparr>
   \<and> insert_max \<lparr>map_m = [(2::nat, 9::nat)]\<rparr> 2 3 = Inr \<lparr>map_m = [(2, 9)]\<rparr>
   \<and> insert_max \<lparr>map_m = [(2::nat, 9::nat)]\<rparr> 1 7 = Inr \<lparr>map_m = [(1, 7), (2, 9)]\<rparr>
   \<and> insert_max_all ThreadSafeMap_new [(2::nat, 5::nat), (2, 9), (2, 3), (1, 7), (1, 4)]
       = Inr \<lparr>map_m = [(1, 7), (2, 9)]\<rparr>
   \<and> offered [(2::nat, 5::nat), (2, 9), (2, 3), (1, 7), (1, 4)] 2 = [5, 9, 3]
   \<and> lookup \<lparr>map_m = [(1::nat, 7::nat), (2, 9)]\<rparr> 2 = Some 9"
proof -
  let ?kvs = "[(2::nat, 5::nat), (2, 9), (2, 3), (1, 7), (1, 4)]"
  have absent: "lookup (ThreadSafeMap_new :: (nat, nat) ThreadSafeMap) 2 = None"
    by (simp add: lookup_def ThreadSafeMap_new_def M_end_def)
  have present: "lookup \<lparr>map_m = [(2::nat, 5::nat)]\<rparr> 2 = Some 5"
    by (simp add: lookup_def M_end_def)
  have present': "lookup \<lparr>map_m = [(2::nat, 9::nat)]\<rparr> 2 = Some 9"
    by (simp add: lookup_def M_end_def)
  have other: "(2::nat) \<noteq> 1" by simp
  have c1: "insert_max ThreadSafeMap_new (2::nat) (5::nat) = Inr \<lparr>map_m = [(2, 5)]\<rparr>"
    by (simp add: insert_max_def ThreadSafeMap_new_def M_end_def)
  have c2: "insert_max \<lparr>map_m = [(2::nat, 5::nat)]\<rparr> 2 9 = Inr \<lparr>map_m = [(2, 9)]\<rparr>"
    by (simp add: insert_max_def M_end_def M_deref_def M_assign_def)
  have c3: "insert_max \<lparr>map_m = [(2::nat, 9::nat)]\<rparr> 2 3 = Inr \<lparr>map_m = [(2, 9)]\<rparr>"
    by (simp add: insert_max_def M_end_def M_deref_def M_assign_def)
  have c4: "insert_max \<lparr>map_m = [(2::nat, 9::nat)]\<rparr> 1 7 = Inr \<lparr>map_m = [(1, 7), (2, 9)]\<rparr>"
    by (simp add: insert_max_def M_end_def)
  have run: "insert_max_all ThreadSafeMap_new ?kvs = Inr \<lparr>map_m = [(1, 7), (2, 9)]\<rparr>"
    by (simp add: insert_max_def ThreadSafeMap_new_def M_end_def M_deref_def M_assign_def)
  have off: "offered ?kvs 2 = [5, 9, 3]" by (simp add: offered_def)
  from insert_max_keeps_maximum [of ThreadSafeMap_new 2 5 ?kvs 2]
    insert_max_keeps_maximum [of "\<lparr>map_m = [(2::nat, 5::nat)]\<rparr>" 2 9 "[]" 2]
    insert_max_keeps_maximum [of "\<lparr>map_m = [(2::nat, 9::nat)]\<rparr>" 1 7 "[]" 2]
    absent present present' other
  show ?thesis unfolding c1 c2 c3 c4 run off by simp
qed

text \<open>
  The invariant of \<^verbatim>\<open>std::map\<close> with its default order: the constructor establishes
  it, and the insertion, the assignment through an iterator and the erasure of an entry
  keep it, hence so do \<^verbatim>\<open>insert_max\<close>, \<^verbatim>\<open>remove_top\<close> and \<^verbatim>\<open>clear\<close>.
\<close>

lemma keys_emplace: "fst ` set (M_emplace m key v) \<subseteq> insert key (fst ` set m)"
  by (induction m) auto

lemma ascending_emplace: "ascending m \<Longrightarrow> ascending (M_emplace m key v)"
proof (induction m)
  case Nil
  then show ?case by (simp add: ascending_def)
next
  case (Cons e m)
  then have rest: "ascending (M_emplace m key v)" and below: "\<forall>k \<in> fst ` set m. fst e < k"
    by (auto simp: ascending_def)
  show ?case
  proof (cases "key < fst e")
    case True
    with Cons.prems show ?thesis by (auto simp: ascending_def)
  next
    case False
    show ?thesis
    proof (cases "fst e < key")
      case True
      have "\<forall>k \<in> fst ` set (M_emplace m key v). fst e < k"
      proof
        fix k assume "k \<in> fst ` set (M_emplace m key v)"
        then have "k = key \<or> k \<in> fst ` set m" using keys_emplace [of m key v] by blast
        then show "fst e < k" using True below by blast
      qed
      then have "\<forall>k \<in> set (map fst (M_emplace m key v)). fst e < k" by simp
      with True False rest show ?thesis by (simp add: ascending_def)
    next
      case nolt: False
      with False Cons.prems show ?thesis by simp
    qed
  qed
qed

lemma keys_assign: "it < length m \<Longrightarrow> map fst (m[it := (fst (m ! it), v)]) = map fst m"
  by (simp add: map_update list_update_same_conv)

lemma ascending_assign:
  "ascending m \<Longrightarrow> M_assign m it v = Inr m' \<Longrightarrow> ascending m'"
  by (auto simp: M_assign_def ascending_def keys_assign split: if_splits)

lemma ascending_erase:
  assumes "ascending m" "M_erase m it = Inr m'"
  shows "ascending m'"
proof -
  from assms(2) have it: "it < length m" and m': "m' = take it m @ drop (Suc it) m"
    by (auto simp: M_erase_def split: if_splits)
  have "sorted_wrt (<) (map fst (take it m @ m ! it # drop (Suc it) m))"
    using assms(1) it by (simp add: ascending_def id_take_nth_drop [symmetric])
  then show ?thesis
    unfolding m' ascending_def by (auto simp: sorted_wrt_append)
qed

lemma ascending_insert_max:
  "ascending (map_m s) \<Longrightarrow> insert_max s key v = Inr s' \<Longrightarrow> ascending (map_m s')"
  by (auto simp: insert_max_def Let_def ascending_emplace split: if_splits sum.splits
      dest: ascending_assign)

lemma ascending_insert_max_all:
  "ascending (map_m s) \<Longrightarrow> insert_max_all s kvs = Inr s' \<Longrightarrow> ascending (map_m s')"
proof (induction kvs arbitrary: s)
  case Nil
  then show ?case by simp
next
  case (Cons kv kvs)
  then show ?case by (auto split: sum.splits dest: ascending_insert_max)
qed

lemma ascending_remove_top:
  "ascending (map_m s) \<Longrightarrow> remove_top s key v = Inr (ok, k, x, s') \<Longrightarrow> ascending (map_m s')"
  by (auto simp: remove_top_def Let_def split: if_splits sum.splits dest: ascending_erase)

lemma ascending_new: "ascending (map_m ThreadSafeMap_new)"
  by (simp add: ascending_def ThreadSafeMap_new_def)

lemma ascending_clear: "ascending (map_m (clear s))"
  by (simp add: ascending_def clear_def)

lemma ascending_first:
  "ascending m \<Longrightarrow> m \<noteq> [] \<Longrightarrow> k \<in> fst ` set m \<Longrightarrow> fst (m ! 0) \<le> k"
  by (cases m) (auto simp: ascending_def less_imp_le)

lemma ascending_tl: "ascending m \<Longrightarrow> ascending (tl m)"
  by (cases m) (simp_all add: ascending_def)

lemma ascending_tl_absent: "ascending m \<Longrightarrow> m \<noteq> [] \<Longrightarrow> fst (m ! 0) \<notin> fst ` set (tl m)"
  by (cases m) (auto simp: ascending_def)

lemma remove_top_empty: "map_m s = [] \<Longrightarrow> remove_top s key v = Inr (False, key, v, s)"
  by (simp add: remove_top_def M_begin_def M_end_def)

lemma remove_top_nonempty:
  "map_m s \<noteq> [] \<Longrightarrow>
   remove_top s key v = Inr (True, fst (map_m s ! 0), snd (map_m s ! 0), s\<lparr>map_m := tl (map_m s)\<rparr>)"
  by (simp add: remove_top_def M_begin_def M_end_def M_deref_def M_erase_def drop_Suc)

lemma drain_all: "map_m s = m \<Longrightarrow> drain s key v = Inr (m, s\<lparr>map_m := []\<rparr>)"
proof (induction m arbitrary: s key v)
  case Nil
  then show ?case by (subst drain.simps) (simp add: remove_top_empty)
next
  case (Cons e m)
  then have ne: "map_m s \<noteq> []" by simp
  have "drain (s\<lparr>map_m := tl (map_m s)\<rparr>) (fst e) (snd e) = Inr (m, s\<lparr>map_m := []\<rparr>)"
    using Cons.IH [of "s\<lparr>map_m := tl (map_m s)\<rparr>" "fst e" "snd e"] Cons.prems by simp
  then show ?case
    using Cons.prems by (subst drain.simps) (simp add: remove_top_nonempty [OF ne])
qed

lemma remove_top_times_empty:
  "map_m s = [] \<Longrightarrow> remove_top_times n s key v = Inr (replicate n False, key, v, s)"
  by (induction n) (simp_all add: remove_top_empty)

text \<open>
  Claim C1, as it stands, fails: it speaks of every instantiation of the class, and
  \<^verbatim>\<open>remove_top\<close> hands out the entry at \<^verbatim>\<open>begin()\<close>, whatever the container. A
  \<^verbatim>\<open>std::map\<close> with \<^verbatim>\<open>std::greater\<close> that holds the keys 1, 2 and 5 iterates 5, 2, 1:
  the call hands out key 5 while key 1 is present, and calling it until the map is empty
  yields the keys 5, 2, 1, which is not a non-decreasing order.
\<close>

theorem remove_top_first_not_minimum:
  "remove_top \<lparr>map_m = [(5::nat, 1::nat), (2, 9), (1, 7)]\<rparr> 0 0
     = Inr (True, 5, 1, \<lparr>map_m = [(2, 9), (1, 7)]\<rparr>)
   \<and> lookup \<lparr>map_m = [(5::nat, 1::nat), (2, 9), (1, 7)]\<rparr> 1 = Some 7
   \<and> (1::nat) < 5
   \<and> drain \<lparr>map_m = [(5::nat, 1::nat), (2, 9), (1, 7)]\<rparr> 0 0
     = Inr ([(5, 1), (2, 9), (1, 7)], \<lparr>map_m = []\<rparr>)
   \<and> \<not> sorted (map fst [(5::nat, 1::nat), (2, 9), (1, 7)])"
  by (simp add: remove_top_def M_begin_def M_end_def M_deref_def M_erase_def lookup_def drain_all)

text \<open>
  Claim C1, amended: for every instantiation of the class over a container that
  iterates in ascending key order (\<^verbatim>\<open>std::map\<close> with its default order), for all types
  of keys and values and in every state of the map, \<^verbatim>\<open>remove_top\<close> on a non-empty map
  returns true and hands out an entry of the map whose key is less than or equal to
  every key present; afterwards the map holds no entry under that key, one entry less,
  and every other key as before. Calling it again and again until it returns false hands
  out all entries, with their keys in non-decreasing order, and leaves the map empty.
  By the lemmas above the constructor and the operations of such a map produce no other
  states.
\<close>

theorem remove_top_minimum:
  assumes "ascending (map_m s)"
  shows "(map_m s \<noteq> [] \<longrightarrow>
           (\<exists>k x s'. remove_top s key v = Inr (True, k, x, s')
              \<and> lookup s k = Some x
              \<and> (\<forall>k' \<in> fst ` set (map_m s). k \<le> k')
              \<and> lookup s' k = None
              \<and> (\<forall>k'. k' \<noteq> k \<longrightarrow> lookup s' k' = lookup s k')
              \<and> size_map s' + 1 = size_map s
              \<and> ascending (map_m s')))
         \<and> (\<exists>out s'. drain s key v = Inr (out, s')
              \<and> sorted (map fst out) \<and> out = map_m s \<and> map_m s' = [])"
proof (intro conjI impI)
  assume ne: "map_m s \<noteq> []"
  then obtain e m where m: "map_m s = e # m" by (cases "map_m s") auto
  let ?s' = "s\<lparr>map_m := tl (map_m s)\<rparr>"
  have "remove_top s key v = Inr (True, fst e, snd e, ?s')"
    using remove_top_nonempty [OF ne, of key v] m by simp
  moreover have "lookup s (fst e) = Some (snd e)" using m by (simp add: lookup_map_of)
  moreover have "\<forall>k' \<in> fst ` set (map_m s). fst e \<le> k'"
    using ascending_first [OF assms ne] m by auto
  moreover have "lookup ?s' (fst e) = None"
    using ascending_tl_absent [OF assms ne] m by (simp add: lookup_map_of map_of_eq_None_iff)
  moreover have "\<forall>k'. k' \<noteq> fst e \<longrightarrow> lookup ?s' k' = lookup s k'"
    using m by (simp add: lookup_map_of)
  moreover have "size_map ?s' + 1 = size_map s" using m by (simp add: size_map_def)
  moreover have "ascending (map_m ?s')" using ascending_tl [OF assms] by simp
  ultimately show "\<exists>k x s'. remove_top s key v = Inr (True, k, x, s')
              \<and> lookup s k = Some x
              \<and> (\<forall>k' \<in> fst ` set (map_m s). k \<le> k')
              \<and> lookup s' k = None
              \<and> (\<forall>k'. k' \<noteq> k \<longrightarrow> lookup s' k' = lookup s k')
              \<and> size_map s' + 1 = size_map s
              \<and> ascending (map_m s')"
    by blast
next
  have "sorted (map fst (map_m s))"
    using assms by (simp add: ascending_def strict_sorted_imp_sorted)
  then show "\<exists>out s'. drain s key v = Inr (out, s')
              \<and> sorted (map fst out) \<and> out = map_m s \<and> map_m s' = []"
    using drain_all [of s "map_m s" key v] by simp
qed

theorem remove_top_minimum_witness:
  "remove_top \<lparr>map_m = [(1::nat, 7::nat), (2, 9), (5, 1)]\<rparr> 0 0
     = Inr (True, 1, 7, \<lparr>map_m = [(2, 9), (5, 1)]\<rparr>)
   \<and> drain \<lparr>map_m = [(1::nat, 7::nat), (2, 9), (5, 1)]\<rparr> 0 0
     = Inr ([(1, 7), (2, 9), (5, 1)], \<lparr>map_m = []\<rparr>)
   \<and> sorted (map fst [(1::nat, 7::nat), (2, 9), (5, 1)])
   \<and> insert_max_all ThreadSafeMap_new [(5::nat, 1::nat), (2, 9), (1, 7)]
     = Inr \<lparr>map_m = [(1, 7), (2, 9), (5, 1)]\<rparr>"
proof -
  let ?s = "\<lparr>map_m = [(1::nat, 7::nat), (2, 9), (5, 1)]\<rparr>"
  have asc: "ascending (map_m ?s)" by (simp add: ascending_def)
  have ne: "map_m ?s \<noteq> []" by simp
  have built: "insert_max_all ThreadSafeMap_new [(5::nat, 1::nat), (2, 9), (1, 7)] = Inr ?s"
    by (simp add: insert_max_def ThreadSafeMap_new_def M_end_def)
  have rt: "remove_top ?s 0 0 = Inr (True, 1, 7, \<lparr>map_m = [(2, 9), (5, 1)]\<rparr>)"
    by (simp add: remove_top_def M_begin_def M_end_def M_deref_def M_erase_def)
  have dr: "drain ?s 0 0 = Inr ([(1, 7), (2, 9), (5, 1)], \<lparr>map_m = []\<rparr>)"
    by (simp add: drain_all)
  from remove_top_minimum [OF asc, of 0 0] ne rt dr built
  show ?thesis by simp
qed

text \<open>
  Claim C9: on an empty map \<^verbatim>\<open>remove_top\<close> returns false; it does not run into a
  fault; and so does every further call, however many follow.
\<close>

theorem remove_top_empty_reports:
  "size_map s = 0 \<longrightarrow>
     remove_top s key v \<noteq> Inl Past_the_end
     \<and> (\<exists>r. remove_top s key v = Inr (False, r))
     \<and> (\<forall>n. \<exists>r. remove_top_times n s key v = Inr (replicate n False, r))"
  by (simp add: size_map_def remove_top_empty remove_top_times_empty)

theorem remove_top_empty_reports_witness:
  "size_map (ThreadSafeMap_new :: (nat, nat) ThreadSafeMap) = 0
   \<and> remove_top (ThreadSafeMap_new :: (nat, nat) ThreadSafeMap) 4 2 = Inr (False, 4, 2, ThreadSafeMap_new)
   \<and> remove_top_times 3 (ThreadSafeMap_new :: (nat, nat) ThreadSafeMap) 4 2
       = Inr ([False, False, False], 4, 2, ThreadSafeMap_new)"
proof -
  have e: "size_map (ThreadSafeMap_new :: (nat, nat) ThreadSafeMap) = 0"
    by (simp add: size_map_def ThreadSafeMap_new_def)
  have r1: "remove_top (ThreadSafeMap_new :: (nat, nat) ThreadSafeMap) 4 2 = Inr (False, 4, 2, ThreadSafeMap_new)"
    by (simp add: remove_top_def M_begin_def M_end_def ThreadSafeMap_new_def)
  have r3: "remove_top_times 3 (ThreadSafeMap_new :: (nat, nat) ThreadSafeMap) 4 2
       = Inr ([False, False, False], 4, 2, ThreadSafeMap_new)"
    by (simp add: numeral_3_eq_3 r1)
  from remove_top_empty_reports [of "ThreadSafeMap_new :: (nat, nat) ThreadSafeMap" 4 2] e r1 r3
  show ?thesis by simp
qed

text \<open>
  Claim C10: on an empty map \<^verbatim>\<open>remove_top\<close> returns false and leaves the map and the
  caller's two variables exactly as they were. The two variables are written on the
  other path only, where the first entry was found: there they hold its key and its
  value.
\<close>

theorem remove_top_empty_unchanged:
  "(size_map s = 0 \<longrightarrow> remove_top s key v = Inr (False, key, v, s))
   \<and> (size_map s \<noteq> 0 \<longrightarrow>
        remove_top s key v = Inr (True, fst (map_m s ! 0), snd (map_m s ! 0), s\<lparr>map_m := tl (map_m s)\<rparr>))"
  by (simp add: size_map_def remove_top_empty remove_top_nonempty)

theorem remove_top_empty_unchanged_witness:
  "remove_top (clear \<lparr>map_m = [(1::nat, 7::nat)]\<rparr>) 4 2 = Inr (False, 4, 2, \<lparr>map_m = []\<rparr>)
   \<and> remove_top \<lparr>map_m = [(1::nat, 7::nat), (2, 9)]\<rparr> 4 2 = Inr (True, 1, 7, \<lparr>map_m = [(2, 9)]\<rparr>)"
  using remove_top_empty_unchanged [of "clear \<lparr>map_m = [(1::nat, 7::nat)]\<rparr>" 4 2]
    remove_top_empty_unchanged [of "\<lparr>map_m = [(1::nat, 7::nat), (2, 9)]\<rparr>" 4 2]
  by (simp add: size_map_def clear_def)

end
